theory Spec2Isabelle
  imports Main "HOL-Library.Word"
begin

section \<open>Errors and string views\<close>

text \<open>
  The library works on \<open>std::string_view\<close> values: byte ranges inside the owned URI text.
  A view is modelled by the bytes it denotes, a \<open>string\<close>. Whatever the C++ code can do
  besides returning is a value of \<open>error\<close>: the two \<open>std::runtime_error\<close> throws of the
  parser, the \<open>std::out_of_range\<close> throw of \<open>std::string::replace\<close>, and a read of a byte
  that lies outside the view (\<open>operator[]\<close> or \<open>front()\<close> past the end: undefined behaviour
  in C++, made visible here as \<open>OutOfBounds\<close>).
\<close>

datatype error = MalformedUser | MalformedQuery | OutOfRange | OutOfBounds

text \<open>\<open>sv[i]\<close>: the byte at index \<open>i\<close> of a view.\<close>

definition at :: "string \<Rightarrow> nat \<Rightarrow> error + char" where
  "at sv i = (if i < length sv then Inr (sv ! i) else Inl OutOfBounds)"

text \<open>\<open>sv.front()\<close>: the first byte of a view.\<close>

definition front :: "string \<Rightarrow> error + char" where
  "front sv = (case sv of [] \<Rightarrow> Inl OutOfBounds | c # _ \<Rightarrow> Inr c)"

text \<open>
  \<open>sv.substr(pos, n)\<close> and \<open>sv.substr(pos)\<close>. Every call in the source has
  \<open>pos \<le> sv.size()\<close>, where the C++ function does not throw.
\<close>

definition substr :: "string \<Rightarrow> nat \<Rightarrow> nat \<Rightarrow> string" where
  "substr sv pos n = take n (drop pos sv)"

definition substr_from :: "string \<Rightarrow> nat \<Rightarrow> string" where
  "substr_from sv pos = drop pos sv"

text \<open>\<open>sv.remove_prefix(n)\<close>; every call in the source has \<open>n \<le> sv.size()\<close>.\<close>

definition remove_prefix :: "nat \<Rightarrow> string \<Rightarrow> string" where
  "remove_prefix n sv = drop n sv"

text \<open>
  \<open>sv.find_first_of(seps)\<close>: the index of the first byte that is one of \<open>seps\<close>;
  \<open>None\<close> is \<open>npos\<close>. With a one-byte separator this is also \<open>sv.find(sep)\<close>.
\<close>

fun find_first_of :: "string \<Rightarrow> string \<Rightarrow> nat option" where
  "find_first_of [] seps = None"
| "find_first_of (c # cs) seps =
     (if c \<in> set seps then Some 0 else map_option Suc (find_first_of cs seps))"

text \<open>\<open>sv.find(sep, pos)\<close> for a one-byte separator: the search starts at index \<open>pos\<close>.\<close>

definition find_from :: "string \<Rightarrow> string \<Rightarrow> nat \<Rightarrow> nat option" where
  "find_from sv seps pos = map_option (\<lambda>k. k + pos) (find_first_of (drop pos sv) seps)"

text \<open>\<open>sv.find_last_of(seps)\<close>: the index of the last byte that is one of \<open>seps\<close>.\<close>

fun find_last_of :: "string \<Rightarrow> string \<Rightarrow> nat option" where
  "find_last_of [] seps = None"
| "find_last_of (c # cs) seps =
     (case find_last_of cs seps of
        Some k \<Rightarrow> Some (Suc k)
      | None \<Rightarrow> (if c \<in> set seps then Some 0 else None))"

text \<open>\<open>std::search(sv.begin(), sv.end(), pat.begin(), pat.end())\<close>: the index where the
  first occurrence of \<open>pat\<close> starts; \<open>None\<close> is \<open>sv.end()\<close>.\<close>

fun search :: "string \<Rightarrow> string \<Rightarrow> nat option" where
  "search [] pat = (if pat = [] then Some 0 else None)"
| "search (c # cs) pat =
     (if take (length pat) (c # cs) = pat then Some 0 else map_option Suc (search cs pat))"

section \<open>Character predicates (\<open>character_checks.h\<close>)\<close>

text \<open>
  The comparisons are on \<open>char\<close>. Every upper bound is below 128, so a byte of 128 and
  more fails each range test whether \<open>char\<close> is signed or not; \<open>of_char\<close> reads the byte
  as a number from 0 to 255.
\<close>

definition char_ge :: "char \<Rightarrow> char \<Rightarrow> bool" where
  "char_ge c d = ((of_char d :: nat) \<le> of_char c)"

definition char_le :: "char \<Rightarrow> char \<Rightarrow> bool" where
  "char_le c d = ((of_char c :: nat) \<le> of_char d)"

definition is_alpha :: "char \<Rightarrow> bool" where
  "is_alpha c = ((char_ge c CHR ''A'' \<and> char_le c CHR ''Z'')
               \<or> (char_ge c CHR ''a'' \<and> char_le c CHR ''z''))"

definition is_digit :: "char \<Rightarrow> bool" where
  "is_digit c = (char_ge c CHR ''0'' \<and> char_le c CHR ''9'')"

definition is_hex_digit :: "char \<Rightarrow> bool" where
  "is_hex_digit c = (is_digit c \<or> (char_ge c CHR ''A'' \<and> char_le c CHR ''F'')
                               \<or> (char_ge c CHR ''a'' \<and> char_le c CHR ''f''))"

definition is_unreserved :: "char \<Rightarrow> bool" where
  "is_unreserved c = (is_alpha c \<or> is_digit c \<or> list_ex (\<lambda>h. c = h) ''-._~'')"

definition is_subdelimiter :: "char \<Rightarrow> bool" where
  "is_subdelimiter c =
     list_ex (\<lambda>h. c = h)
       [CHR ''!'', CHR ''$'', CHR ''&'', CHR 0x27, CHR ''('', CHR '')'', CHR ''*'', CHR ''+'',
        CHR '','', CHR '';'', CHR ''='']"

section \<open>Element predicates (\<open>elements_checks.h\<close>)\<close>

text \<open>\<open>c - '0'\<close>, computed in \<open>int\<close> as C++ does after integral promotion.\<close>

definition digit_value :: "char \<Rightarrow> int" where
  "digit_value c = int (of_char c) - int (of_char CHR ''0'')"

text \<open>
  \<open>is_decimal_octet\<close>: a switch on the size of the view. \<open>value\<close> starts at 0 and is
  assigned only when every byte is a digit; each case returns its own range test.
\<close>

definition is_decimal_octet :: "string \<Rightarrow> bool" where
  "is_decimal_octet element =
     (if length element = 0 then False
      else if length element = 1 then
        (let v = (if is_digit (element ! 0) then digit_value (element ! 0) else 0)
         in v > 0)
      else if length element = 2 then
        (let v = (if is_digit (element ! 0) \<and> is_digit (element ! 1)
                  then digit_value (element ! 0) * 10 + digit_value (element ! 1) else 0)
         in v \<ge> 10 \<and> v < 100)
      else if length element = 3 then
        (let v = (if is_digit (element ! 0) \<and> is_digit (element ! 1) \<and> is_digit (element ! 2)
                  then digit_value (element ! 0) * 100 + digit_value (element ! 1) * 10
                       + digit_value (element ! 2)
                  else 0)
         in v \<ge> 100 \<and> v < 256)
      else False)"

text \<open>
  The \<open>for\<close> loop of \<open>is_IPv4\<close>. The state is the array \<open>octet\<close> of four views, the
  number \<open>idx\<close> of octets stored, the start of the current octet (\<open>last\<close> in the
  source, \<open>start\<close> here) and the index
  \<open>i\<close>. \<open>None\<close> is the \<open>return false\<close> inside the loop. The loop stops when the input
  ends or when four octets are stored, whichever comes first.
\<close>

function IPv4_scan ::
  "string \<Rightarrow> string list \<Rightarrow> nat \<Rightarrow> nat \<Rightarrow> nat \<Rightarrow> (string list \<times> nat \<times> nat \<times> nat) option"
where
  "IPv4_scan element octet idx start i =
     (if i < length element \<and> idx < 4 then
        (if element ! i = CHR ''.'' then
           IPv4_scan element (octet[idx := substr element start (i - start)]) (idx + 1) (i + 1) (i + 1)
         else if \<not> is_digit (element ! i) then None
         else IPv4_scan element octet idx start (i + 1))
      else Some (octet, idx, start, i))"
  by pat_completeness auto
termination
  by (relation "measure (\<lambda>(element, octet, idx, start, i). length element - i)") auto

text \<open>
  \<open>is_IPv4\<close>. The source writes \<open>entity.substr\<close> where it captures the final octet;
  no \<open>entity\<close> is in scope, and the parameter \<open>element\<close> is meant.
\<close>

definition is_IPv4 :: "string \<Rightarrow> bool" where
  "is_IPv4 element =
     (case IPv4_scan element (replicate 4 []) 0 0 0 of
        None \<Rightarrow> False
      | Some (octet, idx, start, i) \<Rightarrow>
          (let (octet', idx') =
                 (if i = length element \<and> idx \<noteq> 4
                  then (octet[idx := substr element start (length element - start)], idx + 1)
                  else (octet, idx))
           in idx' = 4 \<and> list_all is_decimal_octet octet'))"

text \<open>
  \<open>is_IPv6\<close>: the range-for loop, with the two flags as arguments.
\<close>

fun IPv6_scan :: "bool \<Rightarrow> bool \<Rightarrow> string \<Rightarrow> bool" where
  "IPv6_scan colonPresence reconIPv4 [] = True"
| "IPv6_scan colonPresence reconIPv4 (c # cs) =
     (if is_hex_digit c then IPv6_scan colonPresence reconIPv4 cs
      else if c = CHR '':'' \<and> \<not> reconIPv4 then IPv6_scan True reconIPv4 cs
      else if c = CHR ''.'' \<and> colonPresence then IPv6_scan colonPresence True cs
      else False)"

definition is_IPv6 :: "string \<Rightarrow> bool" where
  "is_IPv6 element = IPv6_scan False False element"

definition is_IPLiteral :: "string \<Rightarrow> bool" where
  "is_IPLiteral element =
     (if element = [] then False
      else if element ! 0 = CHR ''['' \<and> element ! (length element - 1) = CHR '']'' then
        (let address = substr element 1 (length element - 2)
         in address \<noteq> [] \<and> is_IPv6 address)
      else False)"

text \<open>
  The guard \<open>i < (element.size() - 2)\<close> of the percent-encoding test. Both sides are
  \<open>size_t\<close>, so the subtraction is done modulo \<open>2^64\<close>.
\<close>

definition pct_guard :: "nat \<Rightarrow> nat \<Rightarrow> bool" where
  "pct_guard i sz = ((word_of_nat i :: 64 word) < word_of_nat sz - 2)"

text \<open>
  The percent-encoding test shared by the validators:
  \<open>sv[i] == '%' && i < (sv.size() - 2) && is_hex_digit(sv[i + 1]) && is_hex_digit(sv[i + 2])\<close>
  with the short-circuit order of \<open>&&\<close>. The caller has checked \<open>i < sv.size()\<close>. The two
  reads after the guard go through \<open>at\<close>, so a read outside the view is a result.
\<close>

definition pct_encoded_at :: "string \<Rightarrow> nat \<Rightarrow> error + bool" where
  "pct_encoded_at sv i =
     (if sv ! i = CHR ''%'' \<and> pct_guard i (length sv) then
        (case at sv (i + 1) of
           Inl e \<Rightarrow> Inl e
         | Inr c1 \<Rightarrow>
             if is_hex_digit c1 then
               (case at sv (i + 2) of
                  Inl e \<Rightarrow> Inl e
                | Inr c2 \<Rightarrow> Inr (is_hex_digit c2))
             else Inr False)
      else Inr False)"

text \<open>
  The loop that \<open>is_regular_name\<close>, \<open>isUserCompliant\<close>, \<open>isPathSegmentCompliant\<close> and
  \<open>isFragmentCompliant\<close> each write out: a byte that \<open>plain\<close> accepts is skipped, a
  percent-encoded triple is skipped whole (\<open>i += 2\<close>, then \<open>++i\<close>), anything else
  returns false. The four functions differ in \<open>plain\<close> only.
\<close>

function pct_loop :: "(char \<Rightarrow> bool) \<Rightarrow> string \<Rightarrow> nat \<Rightarrow> error + bool" where
  "pct_loop plain sv i =
     (if i < length sv then
        (if plain (sv ! i) then pct_loop plain sv (i + 1)
         else (case pct_encoded_at sv i of
                 Inl e \<Rightarrow> Inl e
               | Inr True \<Rightarrow> pct_loop plain sv (i + 3)
               | Inr False \<Rightarrow> Inr False))
      else Inr True)"
  by pat_completeness auto
termination
  by (relation "measure (\<lambda>(plain, sv, i). length sv - i)") auto

definition is_regular_name :: "string \<Rightarrow> error + bool" where
  "is_regular_name element =
     (if element = [] then Inr True
      else pct_loop (\<lambda>c. is_unreserved c \<or> is_subdelimiter c) element 0)"

section \<open>The parsed URI (\<open>URI.h\<close>)\<close>

text \<open>
  The class \<open>URI\<close>: the owned text \<open>uri_\<close> and the views into it. The members are
  named as in the source without the trailing underscore (\<open>uri_\<close> is \<open>uri_raw\<close>).
  \<open>queries_\<close> is a \<open>std::map\<close> from view to view: an association list with unique keys.
  \<open>std::map\<close> keeps its entries ordered by key and the list keeps them in the order of
  insertion; lookups agree.
\<close>

record URI =
  uri_raw :: string
  isAbsolutePath :: bool
  scheme :: string
  user :: string
  host :: string
  port :: string
  path :: string
  queryLine :: string
  fragment :: string
  pathSegments :: "string list"
  queries :: "(string \<times> string) list"

datatype ParsingResult = NoError | EmptyURI

datatype ParsingSteps = Scheme | CheckAuthority | Authority | CheckSeparator | Path | Fragment | Query

text \<open>The object after \<open>uri_(uri)\<close> in the constructor: every view empty, the flag false.\<close>

definition URI_init :: "string \<Rightarrow> URI" where
  "URI_init s =
     \<lparr>uri_raw = s, isAbsolutePath = False, scheme = [], user = [], host = [], port = [],
      path = [], queryLine = [], fragment = [], pathSegments = [], queries = []\<rparr>"

definition SCHEME_SEP :: string where "SCHEME_SEP = '':''"
definition AUTH_ANON :: string where "AUTH_ANON = ''//''"
definition USER_SEP :: string where "USER_SEP = ''@''"
definition PORT_SEP :: string where "PORT_SEP = '':''"
definition PATH_SEP :: string where "PATH_SEP = ''/''"
definition QUERY_ANON :: string where "QUERY_ANON = ''?''"
definition QUERY_SEP :: string where "QUERY_SEP = ''&''"
definition FRAG_SEP :: string where "FRAG_SEP = ''#''"
definition KV_SEP :: string where "KV_SEP = ''=''"

lemmas seps_defs = SCHEME_SEP_def AUTH_ANON_def USER_SEP_def PORT_SEP_def PATH_SEP_def
  QUERY_ANON_def QUERY_SEP_def FRAG_SEP_def KV_SEP_def

text \<open>\<open>hasAuthority()\<close> is \<open>host().has_value()\<close>: the host view is not empty.\<close>

definition hasAuthority :: "URI \<Rightarrow> bool" where
  "hasAuthority st = (host st \<noteq> [])"

text \<open>\<open>std::map::emplace\<close>: the pair is stored unless the key is there already.\<close>

definition emplace :: "string \<Rightarrow> string \<Rightarrow> (string \<times> string) list \<Rightarrow> (string \<times> string) list" where
  "emplace k v m = (case map_of m k of None \<Rightarrow> m @ [(k, v)] | Some _ \<Rightarrow> m)"

subsection \<open>The sub-parsers\<close>

text \<open>
  Each sub-parser takes the object and the cursor \<open>uri\<close> (a view, passed by value) and
  returns the object with the views it has set and the cursor it returns.
\<close>

definition tryParseScheme :: "URI \<Rightarrow> string \<Rightarrow> URI \<times> string" where
  "tryParseScheme st uri =
     (case search uri (SCHEME_SEP @ AUTH_ANON) of
        Some pos \<Rightarrow>
          (let st' = st\<lparr>scheme := substr uri 0 pos\<rparr>
           in (st', remove_prefix (length (scheme st') + length SCHEME_SEP) uri))
      | None \<Rightarrow> (st, uri))"

definition tryParseUser :: "URI \<Rightarrow> string \<Rightarrow> error + (URI \<times> string)" where
  "tryParseUser st uri =
     (case search uri USER_SEP of
        Some pos \<Rightarrow>
          (if pos = 0 then Inl MalformedUser
           else (let st' = st\<lparr>user := substr uri 0 pos\<rparr>
                 in Inr (st', remove_prefix (length (user st') + length USER_SEP) uri)))
      | None \<Rightarrow> Inr (st, uri))"

definition tryParseHost :: "URI \<Rightarrow> string \<Rightarrow> URI \<times> string" where
  "tryParseHost st uri =
     (case find_last_of uri PORT_SEP of
        Some portSeparatorPosition \<Rightarrow>
          (let st' = st\<lparr>host := substr uri 0 portSeparatorPosition,
                         port := substr_from uri (portSeparatorPosition + 1)\<rparr>
           in (st', remove_prefix (length (host st') + length PORT_SEP + length (port st')) uri))
      | None \<Rightarrow>
          (let st' = st\<lparr>host := uri\<rparr>
           in (st', remove_prefix (length (host st')) uri)))"

definition tryParseAuthority :: "URI \<Rightarrow> string \<Rightarrow> error + (URI \<times> string)" where
  "tryParseAuthority st uri =
     (let authority = (case find_first_of uri (PATH_SEP @ FRAG_SEP @ QUERY_ANON) of
                         Some pos \<Rightarrow> substr uri 0 pos
                       | None \<Rightarrow> uri);
          initialAuthSize = length authority
      in case tryParseUser st authority of
           Inl e \<Rightarrow> Inl e
         | Inr (st1, authority1) \<Rightarrow>
             (let (st2, authority2) =
                    (if authority1 \<noteq> [] then tryParseHost st1 authority1 else (st1, authority1))
              in Inr (st2, remove_prefix initialAuthSize uri)))"

text \<open>
  The \<open>while\<close> loop of \<open>tryParsePath\<close>: a segment runs up to and including the next
  \<open>/\<close>; what is left after the last \<open>/\<close> is the final segment, stored by swapping it
  with a new empty element of the vector, which empties \<open>pathView\<close>.
\<close>

function path_loop :: "string list \<Rightarrow> string \<Rightarrow> string list" where
  "path_loop segs pathView =
     (if pathView \<noteq> [] then
        (case find_first_of pathView PATH_SEP of
           Some pos \<Rightarrow> path_loop (segs @ [take (pos + 1) pathView]) (remove_prefix (pos + 1) pathView)
         | None \<Rightarrow> path_loop (segs @ [pathView]) [])
      else segs)"
  by pat_completeness auto
termination
  by (relation "measure (\<lambda>(segs, pathView). length pathView)") (auto simp: remove_prefix_def)

text \<open>
  \<open>tryParsePath\<close>. With an authority one byte is removed from the cursor first. The test
  \<open>uri.front() == PATH_SEP.front()\<close> comes after that removal and reads the first byte
  of the cursor whether or not the cursor is empty.
\<close>

definition tryParsePath :: "URI \<Rightarrow> string \<Rightarrow> error + (URI \<times> string)" where
  "tryParsePath st uri =
     (let uri1 = (if hasAuthority st then remove_prefix (length PATH_SEP) uri else uri);
          st1 = st\<lparr>path := (case find_first_of uri1 (QUERY_ANON @ FRAG_SEP) of
                                Some pos \<Rightarrow> substr uri1 0 pos
                              | None \<Rightarrow> uri1)\<rparr>
      in case front uri1 of
           Inl e \<Rightarrow> Inl e
         | Inr c \<Rightarrow>
             (let st2 = (if c = CHR ''/'' then st1\<lparr>isAbsolutePath := True\<rparr> else st1);
                  st3 = st2\<lparr>pathSegments := path_loop (pathSegments st2) (path st2)\<rparr>
              in Inr (st3, remove_prefix (length (path st3)) uri1)))"

definition tryParseFragment :: "URI \<Rightarrow> string \<Rightarrow> URI \<times> string" where
  "tryParseFragment st uri =
     (let uri1 = remove_prefix (length FRAG_SEP) uri;
          st' = st\<lparr>fragment := substr_from uri1 0\<rparr>
      in (st', remove_prefix (length (fragment st')) uri1))"

text \<open>
  The \<open>while\<close> loop of \<open>tryParseQuery\<close> over \<open>queryView\<close>, with the map as accumulator.
  A piece that ends at \<open>&\<close> is removed together with the \<open>&\<close>; the last piece is swapped
  out of \<open>queryView\<close>, which leaves it empty. Both throws are \<open>MalformedQuery\<close>.
\<close>

function query_loop :: "(string \<times> string) list \<Rightarrow> string \<Rightarrow> error + (string \<times> string) list" where
  "query_loop qs queryView =
     (if queryView \<noteq> [] then
        (case find_first_of queryView QUERY_SEP of
           Some pos \<Rightarrow>
             (let queryPiece = substr queryView 0 pos
              in case find_first_of queryPiece KV_SEP of
                   None \<Rightarrow> Inl MalformedQuery
                 | Some equal \<Rightarrow>
                     query_loop
                       (emplace (substr queryPiece 0 equal)
                          (substr queryPiece (equal + 1) (length queryPiece - (equal + 1))) qs)
                       (remove_prefix (length QUERY_SEP)
                          (remove_prefix (length queryPiece) queryView)))
         | None \<Rightarrow>
             (let queryPiece = queryView
              in case find_first_of queryPiece KV_SEP of
                   None \<Rightarrow> Inl MalformedQuery
                 | Some equal \<Rightarrow>
                     query_loop
                       (emplace (substr queryPiece 0 equal)
                          (substr queryPiece (equal + 1) (length queryPiece - (equal + 1))) qs)
                       []))
      else Inr qs)"
  by pat_completeness auto
termination
  by (relation "measure (\<lambda>(qs, queryView). length queryView)")
     (auto simp: remove_prefix_def QUERY_SEP_def)

definition tryParseQuery :: "URI \<Rightarrow> string \<Rightarrow> error + (URI \<times> string)" where
  "tryParseQuery st uri =
     (let st1 = st\<lparr>queryLine := (case find_first_of uri FRAG_SEP of
                                     Some pos \<Rightarrow> substr uri 0 pos
                                   | None \<Rightarrow> uri)\<rparr>
      in case query_loop (queries st1) (queryLine st1) of
           Inl e \<Rightarrow> Inl e
         | Inr qs \<Rightarrow> Inr (st1\<lparr>queries := qs\<rparr>, remove_prefix (length (queryLine st1)) uri))"

subsection \<open>The state machine\<close>

text \<open>
  One turn of the \<open>switch\<close> inside the \<open>while\<close> loop of \<open>parse\<close>: from the step, the
  object and the cursor to the next step, the object and the cursor. The loop runs a turn
  only on a cursor that is not empty.
\<close>

definition parse_step :: "ParsingSteps \<Rightarrow> URI \<Rightarrow> string \<Rightarrow> error + (ParsingSteps \<times> URI \<times> string)" where
  "parse_step step st uriView =
     (case step of
        Scheme \<Rightarrow>
          (let (st', uriView') = tryParseScheme st uriView in Inr (CheckAuthority, st', uriView'))
      | CheckAuthority \<Rightarrow>
          (let authAnon = (if length uriView > length AUTH_ANON
                              \<and> substr uriView 0 (length AUTH_ANON) = AUTH_ANON
                           then AUTH_ANON else []);
               nxtPathSep = find_from uriView PATH_SEP (length authAnon)
           in if authAnon \<noteq> []
                 \<or> (case nxtPathSep of
                       None \<Rightarrow> True
                     | Some n \<Rightarrow> n > 0 \<or> substr_from uriView n = [])
              then Inr (Authority, st,
                        if authAnon \<noteq> [] then remove_prefix (length AUTH_ANON) uriView else uriView)
              else Inr (CheckSeparator, st, uriView))
      | Authority \<Rightarrow>
          (case tryParseAuthority st uriView of
             Inl e \<Rightarrow> Inl e
           | Inr (st', uriView') \<Rightarrow> Inr (CheckSeparator, st', uriView'))
      | CheckSeparator \<Rightarrow>
          (case front uriView of
             Inl e \<Rightarrow> Inl e
           | Inr c \<Rightarrow>
               if c = CHR ''/'' then Inr (Path, st, uriView)
               else if c = CHR ''?'' then Inr (Query, st, remove_prefix (length QUERY_ANON) uriView)
               else Inr (Fragment, st, remove_prefix (length FRAG_SEP) uriView))
      | Path \<Rightarrow>
          (case tryParsePath st uriView of
             Inl e \<Rightarrow> Inl e
           | Inr (st', uriView') \<Rightarrow> Inr (CheckSeparator, st', uriView'))
      | Query \<Rightarrow>
          (case tryParseQuery st uriView of
             Inl e \<Rightarrow> Inl e
           | Inr (st', uriView') \<Rightarrow> Inr (Fragment, st', uriView'))
      | Fragment \<Rightarrow>
          (let (st', uriView') = tryParseFragment st uriView in Inr (Fragment, st', uriView')))"

text \<open>
  The loop ends: every turn shortens the cursor or keeps it and moves to a step of lower
  rank. \<open>Path\<close> is entered from \<open>CheckSeparator\<close> on a cursor that starts with \<open>/\<close> and
  then consumes at least that byte.
\<close>

fun step_rank :: "ParsingSteps \<Rightarrow> string \<Rightarrow> nat" where
  "step_rank Scheme v = 6"
| "step_rank CheckAuthority v = 5"
| "step_rank Authority v = 4"
| "step_rank CheckSeparator v = (if take 1 v = ''/'' then 3 else 0)"
| "step_rank Path v = (if take 1 v = ''/'' then 2 else 1)"
| "step_rank Query v = 1"
| "step_rank Fragment v = 0"

lemma find_first_of_Some_less: "find_first_of s seps = Some k \<Longrightarrow> k < length s"
  by (induction s arbitrary: k) (auto split: if_splits)

lemma find_first_of_Some_mem: "find_first_of s seps = Some k \<Longrightarrow> s ! k \<in> set seps"
  by (induction s arbitrary: k) (auto split: if_splits)

lemma find_first_of_Some_before: "find_first_of s seps = Some k \<Longrightarrow> j < k \<Longrightarrow> s ! j \<notin> set seps"
proof (induction s arbitrary: k j)
  case Nil then show ?case by simp
next
  case (Cons c cs)
  then show ?case by (cases j) (auto split: if_splits)
qed

lemma find_first_of_None: "find_first_of s seps = None \<longleftrightarrow> set s \<inter> set seps = {}"
  by (induction s) auto

declare path_loop.simps [simp del] query_loop.simps [simp del]

lemma find_first_of_Some_0: "find_first_of s seps = Some 0 \<Longrightarrow> s \<noteq> [] \<and> hd s \<in> set seps"
  by (cases s) (auto split: if_splits)

lemma find_first_of_takeWhile:
  "find_first_of s seps = (if set s \<inter> set seps = {} then None
                           else Some (length (takeWhile (\<lambda>c. c \<notin> set seps) s)))"
  by (induction s) auto

lemma prefix_upto_takeWhile:
  "(case find_first_of v seps of Some pos \<Rightarrow> substr v 0 pos | None \<Rightarrow> v)
   = takeWhile (\<lambda>c. c \<notin> set seps) v"
  by (induction v) (auto simp: substr_def split: option.splits)

lemma tryParsePath_unfold:
  "tryParsePath st v =
     (let v1 = (if host st \<noteq> [] then drop 1 v else v);
          p = takeWhile (\<lambda>c. c \<notin> set ''?#'') v1
      in if v1 = [] then Inl OutOfBounds
         else Inr (st\<lparr>path := p, isAbsolutePath := (isAbsolutePath st \<or> hd v1 = CHR ''/''),
                      pathSegments := path_loop (pathSegments st) p\<rparr>,
                   dropWhile (\<lambda>c. c \<notin> set ''?#'') v1))"
proof -
  have dw: "drop (length (takeWhile P xs)) xs = dropWhile P xs" for P and xs :: string
    by (simp add: dropWhile_eq_drop)
  have sp: "QUERY_ANON @ FRAG_SEP = ''?#''" by (simp add: seps_defs)
  show ?thesis
    unfolding tryParsePath_def hasAuthority_def Let_def prefix_upto_takeWhile sp
    by (cases "if host st \<noteq> [] then drop 1 v else v")
       (auto simp: front_def remove_prefix_def PATH_SEP_def dw)
qed

lemma tryParsePath_progress:
  assumes "tryParsePath st v = Inr (st', v')" "v \<noteq> []"
  shows "length v' < length v \<or> (v' = v \<and> take 1 v \<noteq> ''/'')"
proof (cases "host st \<noteq> []")
  case True
  have "length (dropWhile P (drop 1 v)) < length v" for P
    using assms(2) length_dropWhile_le[of P "drop 1 v"] by (cases v) auto
  with assms True show ?thesis
    by (auto simp: tryParsePath_unfold Let_def split: if_splits)
next
  case False
  with assms have v': "v' = dropWhile (\<lambda>c. c \<notin> set ''?#'') v"
    by (auto simp: tryParsePath_unfold Let_def split: if_splits)
  from assms(2) obtain c cs where v: "v = c # cs" by (cases v) auto
  show ?thesis
  proof (cases "c \<in> set ''?#''")
    case True
    with v v' show ?thesis by auto
  next
    case False
    with v v' have "length v' \<le> length cs"
      using length_dropWhile_le[of "\<lambda>c. c \<notin> set ''?#''" cs] by simp
    with v show ?thesis by simp
  qed
qed

lemma parse_step_decreases:
  assumes "parse_step step st v = Inr (step', st', v')" "v \<noteq> []"
  shows "length v' < length v \<or> (length v' = length v \<and> step_rank step' v' < step_rank step v)"
proof (cases step)
  case Scheme
  with assms show ?thesis
    by (auto simp: parse_step_def tryParseScheme_def Let_def remove_prefix_def split: option.splits)
next
  case CheckAuthority
  with assms show ?thesis
    by (auto simp: parse_step_def Let_def remove_prefix_def split: if_splits)
next
  case Authority
  with assms show ?thesis
    by (auto simp: parse_step_def tryParseAuthority_def Let_def remove_prefix_def
             split: sum.splits prod.splits)
next
  case CheckSeparator
  with assms show ?thesis
    by (cases v) (auto simp: parse_step_def front_def remove_prefix_def seps_defs split: if_splits)
next
  case Path
  with assms obtain "tryParsePath st v = Inr (st', v')" and "step' = CheckSeparator"
    by (auto simp: parse_step_def split: sum.splits)
  with tryParsePath_progress[OF this(1) assms(2)] Path show ?thesis
    by auto
next
  case Fragment
  with assms show ?thesis
    by (auto simp: parse_step_def tryParseFragment_def Let_def remove_prefix_def substr_from_def
                   seps_defs)
next
  case Query
  with assms show ?thesis
    by (auto simp: parse_step_def tryParseQuery_def Let_def remove_prefix_def
             split: sum.splits)
qed

text \<open>The \<open>while (!uriView.empty())\<close> loop of \<open>parse\<close>.\<close>

function parse_loop :: "ParsingSteps \<Rightarrow> URI \<Rightarrow> string \<Rightarrow> error + URI" where
  "parse_loop step st uriView =
     (if uriView \<noteq> [] then
        (case parse_step step st uriView of
           Inl e \<Rightarrow> Inl e
         | Inr (step', st', uriView') \<Rightarrow> parse_loop step' st' uriView')
      else Inr st)"
  by pat_completeness auto
termination
proof (relation "measures [\<lambda>(step, st, v). length v, \<lambda>(step, st, v). step_rank step v]")
  show "wf (measures [\<lambda>(step, st, v). length v, \<lambda>(step, st, v). step_rank step v])" by simp
next
  fix step st uriView x2 x y xa ya
  assume "uriView \<noteq> []" "parse_step step st uriView = Inr x2" "(x, y) = x2" "(xa, ya) = y"
  then have "parse_step step st uriView = Inr (x, xa, ya)" by simp
  from parse_step_decreases[OF this \<open>uriView \<noteq> []\<close>]
  show "((x, xa, ya), step, st, uriView) \<in> measures [\<lambda>(step, st, v). length v, \<lambda>(step, st, v). step_rank step v]"
    by auto
qed

declare parse_loop.simps [simp del]

text \<open>
  \<open>parse\<close>, run by the constructors on the text they store. The constructors drop the
  \<open>ParsingResult\<close>; an exception leaves through them.
\<close>

definition parse :: "string \<Rightarrow> error + (ParsingResult \<times> URI)" where
  "parse s =
     (if s = [] then Inr (EmptyURI, URI_init s)
      else (case parse_loop Scheme (URI_init s) s of
              Inl e \<Rightarrow> Inl e
            | Inr st \<Rightarrow> Inr (NoError, st)))"


subsection \<open>Scheme mutation\<close>

text \<open>
  \<open>std::string::replace(pos, len, str)\<close> throws \<open>std::out_of_range\<close> when \<open>pos\<close> is
  beyond the size and otherwise replaces the \<open>len\<close> bytes at \<open>pos\<close> (fewer at the end of
  the text). \<open>std::string::append(str, subpos, sublen)\<close> appends the \<open>sublen\<close> bytes of
  \<open>str\<close> that start at \<open>subpos\<close>, and throws when \<open>subpos\<close> is beyond the size of \<open>str\<close>.
\<close>

definition string_replace :: "string \<Rightarrow> nat \<Rightarrow> nat \<Rightarrow> string \<Rightarrow> error + string" where
  "string_replace s pos len str =
     (if pos > length s then Inl OutOfRange else Inr (take pos s @ str @ drop (pos + len) s))"

definition string_append :: "string \<Rightarrow> string \<Rightarrow> nat \<Rightarrow> nat \<Rightarrow> error + string" where
  "string_append s str subpos sublen =
     (if subpos > length str then Inl OutOfRange else Inr (s @ take sublen (drop subpos str)))"

text \<open>
  The conversion of a \<open>char\<close> to \<open>size_t\<close>, with \<open>char\<close> signed and \<open>size_t\<close> of 64 bits
  (x86-64): a byte below 128 is its own value.
\<close>

definition char_to_size_t :: "char \<Rightarrow> nat" where
  "char_to_size_t c =
     (if (of_char c :: nat) < 128 then of_char c else 2 ^ 64 - 256 + of_char c)"

text \<open>
  \<open>setScheme\<close>. The first argument of \<open>uri_.replace\<close> is \<open>scheme_[0]\<close>, a byte of the
  scheme, which the call converts to the position. The \<open>append\<close> is called with
  \<open>(scheme, scheme.size(), 0u)\<close>. Afterwards \<open>scheme_\<close> is the view of the first
  \<open>newScheme.size()\<close> bytes of the buffer. The source leaves every other view as it was;
  the model, which keeps the bytes of a view, leaves those fields unchanged.
\<close>

definition setScheme :: "URI \<Rightarrow> string \<Rightarrow> error + URI" where
  "setScheme st newScheme =
     (case (if scheme st \<noteq> []
            then string_replace (uri_raw st) (char_to_size_t (scheme st ! 0)) (length (scheme st))
                   newScheme
            else string_append (uri_raw st) (newScheme @ SCHEME_SEP)
                   (length (newScheme @ SCHEME_SEP)) 0) of
        Inl e \<Rightarrow> Inl e
      | Inr raw' \<Rightarrow> Inr (st\<lparr>uri_raw := raw', scheme := take (length newScheme) raw'\<rparr>))"

subsection \<open>Compliance validators\<close>

definition isUserCompliant :: "string \<Rightarrow> error + bool" where
  "isUserCompliant usr =
     (if usr = [] then Inr True
      else pct_loop (\<lambda>c. is_unreserved c \<or> is_subdelimiter c \<or> c = CHR '':'') usr 0)"

definition isPathSegmentCompliant :: "string \<Rightarrow> error + bool" where
  "isPathSegmentCompliant segment =
     pct_loop (\<lambda>c. is_unreserved c \<or> is_subdelimiter c \<or> list_ex (\<lambda>h. h = c) '':@/'') segment 0"

definition isFragmentCompliant :: "string \<Rightarrow> error + bool" where
  "isFragmentCompliant frag =
     (if frag = [] then Inr True
      else pct_loop (\<lambda>c. is_unreserved c \<or> is_subdelimiter c \<or> list_ex (\<lambda>h. h = c) '':@/?'')
             frag 0)"

definition isQueryCompliant :: "string \<Rightarrow> error + bool" where
  "isQueryCompliant query = isFragmentCompliant query"

subsection \<open>The query text as the specification words it\<close>

text \<open>
  These definitions are not taken from the source. They render the specification's
  "split on \<open>&\<close>", "left of \<open>=\<close> is the key, right is the value": \<open>split_on\<close> is the
  usual split of a text at every separator (a text with \<open>n\<close> separators has \<open>n + 1\<close>
  pieces, some of them possibly empty). \<open>query_pieces\<close> are those pieces without an empty
  last one: the pieces of an empty text, and the piece after a trailing \<open>&\<close>, are left out.
\<close>

fun split_on :: "char \<Rightarrow> string \<Rightarrow> string list" where
  "split_on sep [] = [[]]"
| "split_on sep (c # cs) =
     (if c = sep then [] # split_on sep cs
      else (case split_on sep cs of p # ps \<Rightarrow> (c # p) # ps | [] \<Rightarrow> [[c]]))"

definition query_pieces :: "string \<Rightarrow> string list" where
  "query_pieces q = (let ps = split_on CHR ''&'' q in if last ps = [] then butlast ps else ps)"

definition piece_key :: "string \<Rightarrow> string" where
  "piece_key p = takeWhile (\<lambda>c. c \<noteq> CHR ''='') p"

definition piece_value :: "string \<Rightarrow> string" where
  "piece_value p = drop 1 (dropWhile (\<lambda>c. c \<noteq> CHR ''='') p)"

definition add_piece :: "(string \<times> string) list \<Rightarrow> string \<Rightarrow> (string \<times> string) list" where
  "add_piece m p = emplace (piece_key p) (piece_value p) m"


section \<open>Properties of the sub-parsers\<close>

text \<open>Each result of the loop satisfies what the steps preserve.\<close>

lemma parse_loop_invariant:
  assumes "parse_loop step st v = Inr u"
    and "I step st v"
    and pres: "\<And>step st v step' st' v'.
           I step st v \<Longrightarrow> v \<noteq> [] \<Longrightarrow> parse_step step st v = Inr (step', st', v')
           \<Longrightarrow> I step' st' v'"
  shows "\<exists>step'. I step' u []"
  using assms(1,2)
proof (induction step st v rule: parse_loop.induct)
  case (1 step st v)
  show ?case
  proof (cases "v = []")
    case True
    with 1(2) have "u = st" by (simp add: parse_loop.simps[of step st "[]"])
    with True 1(3) show ?thesis by auto
  next
    case False
    with 1(2) obtain step' st' v' where
      ps: "parse_step step st v = Inr (step', st', v')" and
      pl: "parse_loop step' st' v' = Inr u"
      by (auto simp: parse_loop.simps[of step st v] split: sum.splits)
    have "I step' st' v'" using pres[OF 1(3) False ps] .
    from 1(1)[OF False ps refl refl pl this] show ?thesis .
  qed
qed

text \<open>The segments that the path loop appends make up the path text it was given.\<close>

lemma path_loop_concat: "concat (path_loop segs p) = concat segs @ p"
proof (induction segs p rule: path_loop.induct)
  case (1 segs pathView)
  show ?case
  proof (cases "pathView = []")
    case True
    then show ?thesis by (simp add: path_loop.simps[of segs "[]"])
  next
    case False
    show ?thesis
    proof (cases "find_first_of pathView PATH_SEP")
      case None
      with False 1(1)[OF False None] show ?thesis
        by (simp add: path_loop.simps[of segs pathView] path_loop.simps[of _ "[]"])
    next
      case (Some pos)
      with False 1(2)[OF False Some] show ?thesis
        by (simp add: path_loop.simps[of segs pathView] remove_prefix_def)
    qed
  qed
qed

text \<open>The query loop against the pieces of the query text.\<close>

lemma split_on_nonempty: "split_on sep s \<noteq> []"
  by (induction s) (auto split: list.splits)

lemma split_on_no_sep: "sep \<notin> set s \<Longrightarrow> split_on sep s = [s]"
  by (induction s) auto

lemma split_on_append: "sep \<notin> set p \<Longrightarrow> split_on sep (p @ sep # rest) = p # split_on sep rest"
  by (induction p) auto

lemma query_pieces_Nil: "query_pieces [] = []"
  by (simp add: query_pieces_def)

lemma query_pieces_last: "q \<noteq> [] \<Longrightarrow> CHR ''&'' \<notin> set q \<Longrightarrow> query_pieces q = [q]"
  by (simp add: query_pieces_def split_on_no_sep)

lemma query_pieces_Cons:
  "CHR ''&'' \<notin> set p \<Longrightarrow> query_pieces (p @ CHR ''&'' # rest) = p # query_pieces rest"
  by (simp add: query_pieces_def split_on_append split_on_nonempty Let_def)

lemma find_first_of_split:
  assumes "find_first_of s [c] = Some pos"
  shows "s = take pos s @ c # drop (pos + 1) s" and "c \<notin> set (take pos s)"
  using assms by (induction s arbitrary: pos) (auto split: if_splits)

lemma find_first_of_single_None: "find_first_of s [c] = None \<longleftrightarrow> c \<notin> set s"
  by (induction s) auto

lemma key_value_of_find:
  assumes "find_first_of p ''='' = Some equal"
  shows "substr p 0 equal = piece_key p"
    and "substr p (equal + 1) (length p - (equal + 1)) = piece_value p"
  using assms
  by (induction p arbitrary: equal)
     (auto simp: substr_def piece_key_def piece_value_def split: if_splits)

lemma query_loop_eq:
  "query_loop qs q =
     (if list_ex (\<lambda>p. CHR ''='' \<notin> set p) (query_pieces q) then Inl MalformedQuery
      else Inr (foldl add_piece qs (query_pieces q)))"
proof (induction qs q rule: query_loop.induct)
  case (1 qs queryView)
  show ?case
  proof (cases "queryView = []")
    case True
    then show ?thesis by (simp add: query_loop.simps[of qs "[]"] query_pieces_Nil)
  next
    case ne: False
    show ?thesis
    proof (cases "find_first_of queryView QUERY_SEP")
      case None
      then have nosep: "CHR ''&'' \<notin> set queryView"
        by (simp add: QUERY_SEP_def find_first_of_single_None)
      have qp: "query_pieces queryView = [queryView]" using ne nosep by (rule query_pieces_last)
      show ?thesis
      proof (cases "find_first_of queryView KV_SEP")
        case n2: None
        then have "CHR ''='' \<notin> set queryView" by (simp add: KV_SEP_def find_first_of_single_None)
        with ne None n2 qp show ?thesis by (simp add: query_loop.simps[of qs queryView])
      next
        case (Some equal)
        then have "CHR ''='' \<in> set queryView"
          using find_first_of_single_None[of queryView "CHR ''=''"] by (simp add: KV_SEP_def)
        moreover note kv = key_value_of_find[OF Some[unfolded KV_SEP_def]]
        ultimately show ?thesis using ne None Some qp
          by (simp add: query_loop.simps[of qs queryView] query_loop.simps[of _ "[]"] add_piece_def
                kv[simplified])
      qed
    next
      case (Some pos)
      define piece where "piece = substr queryView 0 pos"
      define rest where "rest = drop (pos + 1) queryView"
      from Some have dec: "queryView = piece @ CHR ''&'' # rest" and nosep: "CHR ''&'' \<notin> set piece"
        using find_first_of_split[of queryView "CHR ''&''" pos]
        by (simp_all add: QUERY_SEP_def piece_def rest_def substr_def)
      have len: "length piece = pos" using Some find_first_of_Some_less[OF Some]
        by (simp add: piece_def substr_def)
      have rp: "remove_prefix (length QUERY_SEP) (remove_prefix (length piece) queryView) = rest"
        by (simp add: remove_prefix_def QUERY_SEP_def len rest_def)
      have qp: "query_pieces queryView = piece # query_pieces rest"
        unfolding dec using nosep by (rule query_pieces_Cons)
      show ?thesis
      proof (cases "find_first_of piece KV_SEP")
        case n2: None
        then have "CHR ''='' \<notin> set piece" by (simp add: KV_SEP_def find_first_of_single_None)
        with ne Some n2 qp show ?thesis
          by (simp add: query_loop.simps[of qs queryView] piece_def[symmetric])
      next
        case s2: (Some equal)
        then have mem: "CHR ''='' \<in> set piece"
          using find_first_of_single_None[of piece "CHR ''=''"] by (simp add: KV_SEP_def)
        note kv0 = key_value_of_find[OF s2[unfolded KV_SEP_def]]
        note kv = kv0 kv0[simplified]
        have ih: "query_loop (emplace (piece_key piece) (piece_value piece) qs) rest =
           (if list_ex (\<lambda>p. CHR ''='' \<notin> set p) (query_pieces rest) then Inl MalformedQuery
            else Inr (foldl add_piece (emplace (piece_key piece) (piece_value piece) qs)
                        (query_pieces rest)))"
          using 1(2)[OF ne Some piece_def s2]
          by (simp add: kv rp)
        show ?thesis using ne Some s2 mem
          by (simp add: query_loop.simps[of qs queryView] piece_def[symmetric] kv rp ih qp
                add_piece_def[of qs piece])
      qed
    qed
  qed
qed

lemma parse_loop_Fragment:
  "parse_loop Fragment st v = Inr (if v = [] then st else st\<lparr>fragment := drop 1 v\<rparr>)"
proof (cases "v = []")
  case True
  then show ?thesis by (simp add: parse_loop.simps[of Fragment st "[]"])
next
  case False
  have "parse_step Fragment st v = Inr (Fragment, st\<lparr>fragment := drop 1 v\<rparr>, [])"
    by (simp add: parse_step_def tryParseFragment_def Let_def remove_prefix_def substr_from_def
          FRAG_SEP_def)
  with False show ?thesis
    by (simp add: parse_loop.simps[of Fragment st v] parse_loop.simps[of Fragment _ "[]"])
qed

lemma tryParseQuery_unfold:
  "tryParseQuery st v =
     (let q = takeWhile (\<lambda>c. c \<noteq> CHR ''#'') v
      in if list_ex (\<lambda>p. CHR ''='' \<notin> set p) (query_pieces q) then Inl MalformedQuery
         else Inr (st\<lparr>queryLine := q, queries := foldl add_piece (queries st) (query_pieces q)\<rparr>,
                   dropWhile (\<lambda>c. c \<noteq> CHR ''#'') v))"
proof -
  have q: "(case find_first_of v FRAG_SEP of Some pos \<Rightarrow> substr v 0 pos | None \<Rightarrow> v)
           = takeWhile (\<lambda>c. c \<noteq> CHR ''#'') v"
    by (simp add: prefix_upto_takeWhile FRAG_SEP_def)
  have dw: "drop (length (takeWhile P xs)) xs = dropWhile P xs" for P and xs :: string
    by (simp add: dropWhile_eq_drop)
  show ?thesis
    by (simp add: tryParseQuery_def q Let_def query_loop_eq remove_prefix_def dw)
qed

text \<open>The authority sub-parsers when they leave the host empty.\<close>

lemma search_single: "search s [c] = find_first_of s [c]"
  by (induction s) auto

lemma search_Some_drop: "search s pat = Some pos \<Longrightarrow> take (length pat) (drop pos s) = pat"
  by (induction s arbitrary: pos) (auto split: if_splits)

lemma search_Some_decomp:
  "search s pat = Some pos \<Longrightarrow> \<exists>rest. s = take pos s @ pat @ rest \<and> pos \<le> length s"
proof (induction s arbitrary: pos)
  case Nil
  then show ?case by (auto split: if_splits)
next
  case (Cons c cs)
  show ?case
  proof (cases "take (length pat) (c # cs) = pat")
    case True
    with Cons.prems have "pos = 0" by simp
    moreover from True have "c # cs = pat @ drop (length pat) (c # cs)"
      by (metis append_take_drop_id)
    ultimately show ?thesis by auto
  next
    case False
    with Cons.prems obtain k where k: "search cs pat = Some k" "pos = Suc k" by auto
    from Cons.IH[OF k(1)] k(2) show ?thesis by auto
  qed
qed

lemma find_last_of_Some:
  "find_last_of s [c] = Some p \<Longrightarrow> p < length s \<and> s ! p = c"
  by (induction s arbitrary: p) (auto split: option.splits if_splits)

lemma find_last_of_Some_0:
  assumes "find_last_of s [c] = Some 0"
  shows "s = c # drop 1 s"
proof -
  from find_last_of_Some[OF assms] have "0 < length s" "s ! 0 = c" by auto
  then show ?thesis by (cases s) auto
qed

lemma tryParseUser_shape:
  assumes "tryParseUser st a = Inr (st1, a1)"
  shows "host st1 = host st \<and> port st1 = port st
         \<and> ((user st1 = user st \<and> a1 = a) \<or> (user st1 \<noteq> [] \<and> a = user st1 @ ''@'' @ a1))"
proof (cases "find_first_of a ''@''")
  case None
  with assms show ?thesis by (simp add: tryParseUser_def USER_SEP_def search_single)
next
  case (Some pos)
  from find_first_of_split[OF Some] have "a = take pos a @ ''@'' @ drop (pos + 1) a" by simp
  moreover from assms Some have "pos \<noteq> 0"
    by (auto simp: tryParseUser_def USER_SEP_def search_single split: if_splits)
  moreover have "pos < length a" using Some by (rule find_first_of_Some_less)
  ultimately show ?thesis using assms Some
    by (auto simp: tryParseUser_def USER_SEP_def search_single Let_def substr_def
          remove_prefix_def split: if_splits)
qed

lemma tryParseHost_shape:
  assumes "tryParseHost st1 a1 = (st2, a2)" "a1 \<noteq> []" "host st2 = []"
  shows "user st2 = user st1 \<and> a1 = '':'' @ port st2"
proof (cases "find_last_of a1 '':''")
  case None
  with assms show ?thesis by (auto simp: tryParseHost_def PORT_SEP_def Let_def)
next
  case (Some p)
  from find_last_of_Some[OF Some] have lt: "p < length a1" by simp
  from assms(1) Some have h: "host st2 = take p a1" "port st2 = drop (p + 1) a1"
      "user st2 = user st1"
    by (auto simp: tryParseHost_def PORT_SEP_def Let_def substr_def substr_from_def)
  from h(1) assms(3) lt have "p = 0" by (cases p) auto
  with Some find_last_of_Some_0[of a1 "CHR '':''"] h show ?thesis by simp
qed

lemma tryParseAuthority_empty_host:
  assumes "tryParseAuthority st v = Inr (st', v')"
    and "user st = []" "host st = []" "port st = []" "host st' = []"
  shows "\<exists>colon. takeWhile (\<lambda>c. c \<notin> set ''/#?'') v
                   = (if user st' = [] then [] else user st' @ ''@'') @ colon @ port st'
                 \<and> (colon = '':'' \<or> (colon = [] \<and> port st' = []))"
proof -
  define a where "a = takeWhile (\<lambda>c. c \<notin> set ''/#?'') v"
  have a_eq: "(case find_first_of v (PATH_SEP @ FRAG_SEP @ QUERY_ANON) of
                 Some pos \<Rightarrow> substr v 0 pos | None \<Rightarrow> v) = a"
    unfolding a_def prefix_upto_takeWhile by (simp add: seps_defs)
  from assms(1) obtain st1 a1 where
    u: "tryParseUser st a = Inr (st1, a1)" and
    st': "st' = (if a1 \<noteq> [] then fst (tryParseHost st1 a1) else st1)"
    by (auto simp: tryParseAuthority_def a_eq Let_def split: sum.splits prod.splits if_splits)
  from tryParseUser_shape[OF u] assms(2-4) have
    f: "host st1 = []" "port st1 = []" and
    s: "(user st1 = [] \<and> a1 = a) \<or> (user st1 \<noteq> [] \<and> a = user st1 @ ''@'' @ a1)"
    by auto
  from s have dec: "a = (if user st1 = [] then [] else user st1 @ ''@'') @ a1" by auto
  show ?thesis
  proof (cases "a1 = []")
    case True
    with st' have "st' = st1" by simp
    with dec f True show ?thesis unfolding a_def[symmetric] by simp
  next
    case False
    obtain st2 a2 where h: "tryParseHost st1 a1 = (st2, a2)" by (cases "tryParseHost st1 a1")
    with st' False have "st' = st2" by simp
    with tryParseHost_shape[OF h False] assms(5) dec show ?thesis
      unfolding a_def[symmetric] by auto
  qed
qed

lemma tryParseAuthority_rest:
  "tryParseAuthority st v = Inr (st', v') \<Longrightarrow> v' = dropWhile (\<lambda>c. c \<notin> set ''/#?'') v"
proof -
  have "(case find_first_of v (PATH_SEP @ FRAG_SEP @ QUERY_ANON) of
                 Some pos \<Rightarrow> substr v 0 pos | None \<Rightarrow> v) = takeWhile (\<lambda>c. c \<notin> set ''/#?'') v"
    unfolding prefix_upto_takeWhile by (simp add: seps_defs)
  moreover have "drop (length (takeWhile P xs)) xs = dropWhile P xs" for P and xs :: string
    by (simp add: dropWhile_eq_drop)
  moreover assume "tryParseAuthority st v = Inr (st', v')"
  ultimately show ?thesis
    by (auto simp: tryParseAuthority_def Let_def remove_prefix_def split: sum.splits prod.splits)
qed

section \<open>Invariants of the state machine\<close>

text \<open>
  The segments and the path: both are empty until the \<open>Path\<close> step has run; from then on
  they agree, and the loop is in a step from which \<open>Path\<close> is not entered again.
\<close>

definition seg_inv :: "ParsingSteps \<Rightarrow> URI \<Rightarrow> string \<Rightarrow> bool" where
  "seg_inv step st v =
     ((pathSegments st = [] \<and> path st = [])
      \<or> (concat (pathSegments st) = path st
          \<and> (step = Query \<or> step = Fragment \<or> (step = CheckSeparator \<and> take 1 v \<noteq> ''/''))))"

lemma dropWhile_not_slash: "P CHR ''/'' \<Longrightarrow> take 1 (dropWhile P v) \<noteq> ''/''"
  by (induction v) auto

lemma seg_inv_step:
  assumes "seg_inv step st v" "v \<noteq> []" "parse_step step st v = Inr (step', st', v')"
  shows "seg_inv step' st' v'"
proof (cases step)
  case Scheme
  with assms show ?thesis
    by (auto simp: seg_inv_def parse_step_def tryParseScheme_def Let_def split: option.splits)
next
  case CheckAuthority
  with assms show ?thesis
    by (auto simp: seg_inv_def parse_step_def Let_def split: if_splits)
next
  case Authority
  with assms show ?thesis
    by (auto simp: seg_inv_def parse_step_def tryParseAuthority_def tryParseUser_def
          tryParseHost_def Let_def split: sum.splits prod.splits option.splits if_splits)
next
  case CheckSeparator
  with assms show ?thesis
    by (cases v) (auto simp: seg_inv_def parse_step_def front_def split: if_splits)
next
  case Path
  from assms(1) Path have e: "pathSegments st = []" "path st = []"
    by (auto simp: seg_inv_def)
  define v1 where "v1 = (if host st \<noteq> [] then drop 1 v else v)"
  define p where "p = takeWhile (\<lambda>c. c \<notin> set ''?#'') v1"
  from assms(3) Path have r: "step' = CheckSeparator"
      "st' = st\<lparr>path := p, isAbsolutePath := (isAbsolutePath st \<or> hd v1 = CHR ''/''),
                 pathSegments := path_loop (pathSegments st) p\<rparr>"
      "v' = dropWhile (\<lambda>c. c \<notin> set ''?#'') v1"
    by (auto simp: parse_step_def tryParsePath_unfold Let_def v1_def p_def split: if_splits)
  have "take 1 v' \<noteq> ''/''" unfolding r(3) by (rule dropWhile_not_slash) simp
  moreover have "concat (pathSegments st') = path st'"
    by (simp add: r(2) e path_loop_concat)
  ultimately show ?thesis by (simp add: seg_inv_def r(1))
next
  case Fragment
  with assms show ?thesis
    by (auto simp: seg_inv_def parse_step_def tryParseFragment_def Let_def)
next
  case Query
  with assms show ?thesis
    by (auto simp: seg_inv_def parse_step_def tryParseQuery_def Let_def split: sum.splits)
qed

text \<open>
  The authority: before the \<open>Authority\<close> step the user, host and port are empty and the
  cursor is a suffix of the input that starts the input or follows a \<open>/\<close>; after it
  the three views do not change.
\<close>

definition auth_goal :: "string \<Rightarrow> URI \<Rightarrow> bool" where
  "auth_goal s u =
     (host u = [] \<longrightarrow>
        (user u = [] \<and> port u = [])
        \<or> (\<exists>pre colon post.
              s = pre @ (if user u = [] then [] else user u @ ''@'') @ colon @ port u @ post
              \<and> (colon = '':'' \<or> (colon = [] \<and> port u = []))
              \<and> (pre = [] \<or> last pre = CHR ''/'')
              \<and> (post = [] \<or> hd post \<in> set ''/?#'')))"

lemma auth_goal_cong:
  "user u' = user u \<Longrightarrow> host u' = host u \<Longrightarrow> port u' = port u
   \<Longrightarrow> auth_goal s u' = auth_goal s u"
  by (simp add: auth_goal_def)

lemma later_steps_frame:
  assumes "parse_step step st v = Inr (step', st', v')"
    and "step = CheckSeparator \<or> step = Path \<or> step = Query \<or> step = Fragment"
  shows "user st' = user st \<and> host st' = host st \<and> port st' = port st
         \<and> (step' = CheckSeparator \<or> step' = Path \<or> step' = Query \<or> step' = Fragment)"
proof -
  consider "step = CheckSeparator" | "step = Path" | "step = Query" | "step = Fragment"
    using assms(2) by blast
  then show ?thesis
  proof cases
    case 1
    with assms(1) show ?thesis
      by (cases v) (auto simp: parse_step_def front_def split: if_splits)
  next
    case 2
    with assms(1) show ?thesis
      by (auto simp: parse_step_def tryParsePath_unfold Let_def split: if_splits)
  next
    case 3
    with assms(1) show ?thesis
      by (auto simp: parse_step_def tryParseQuery_unfold Let_def split: if_splits)
  next
    case 4
    with assms(1) show ?thesis
      by (auto simp: parse_step_def tryParseFragment_def Let_def)
  qed
qed

definition auth_inv :: "string \<Rightarrow> ParsingSteps \<Rightarrow> URI \<Rightarrow> string \<Rightarrow> bool" where
  "auth_inv s step st v =
     (if step = Scheme then v = s \<and> user st = [] \<and> host st = [] \<and> port st = []
      else if step = CheckAuthority then
        (\<exists>pre. s = pre @ v \<and> (pre = [] \<or> take 2 v = ''//''))
        \<and> user st = [] \<and> host st = [] \<and> port st = []
      else if step = Authority then
        (\<exists>pre. s = pre @ v \<and> (pre = [] \<or> last pre = CHR ''/''))
        \<and> user st = [] \<and> host st = [] \<and> port st = []
      else auth_goal s st)"

lemma later_steps_preserve:
  assumes "auth_inv s step st v" "parse_step step st v = Inr (step', st', v')"
    and l: "step = CheckSeparator \<or> step = Path \<or> step = Query \<or> step = Fragment"
  shows "auth_inv s step' st' v'"
proof -
  from later_steps_frame[OF assms(2) l] have
    f: "user st' = user st" "host st' = host st" "port st' = port st" and
    l': "step' = CheckSeparator \<or> step' = Path \<or> step' = Query \<or> step' = Fragment"
    by simp_all
  from f have "auth_goal s st' = auth_goal s st" by (rule auth_goal_cong)
  moreover from assms(1) l have "auth_goal s st" by (auto simp: auth_inv_def)
  ultimately show ?thesis using l' by (auto simp: auth_inv_def)
qed

lemma auth_inv_step:
  assumes "auth_inv s step st v" "v \<noteq> []" "parse_step step st v = Inr (step', st', v')"
  shows "auth_inv s step' st' v'"
proof (cases step)
  case Scheme
  show ?thesis
  proof (cases "search v (SCHEME_SEP @ AUTH_ANON)")
    case None
    with assms Scheme show ?thesis
      by (auto simp: auth_inv_def parse_step_def tryParseScheme_def)
  next
    case (Some pos)
    from search_Some_decomp[OF Some] obtain rest where
      d: "v = take pos v @ ''://'' @ rest" "pos \<le> length v" by (auto simp: seps_defs)
    have "drop (pos + 1) v = drop (pos + 1) (take pos v @ ''://'' @ rest)" using d(1) by simp
    also have "\<dots> = ''//'' @ rest" using d(2) by simp
    finally have t2: "take 2 (drop (pos + 1) v) = ''//''" by simp
    from assms Scheme Some have r: "step' = CheckAuthority" "v' = drop (pos + 1) v"
        "user st' = []" "host st' = []" "port st' = []"
      by (auto simp: auth_inv_def parse_step_def tryParseScheme_def Let_def remove_prefix_def
            substr_def seps_defs min_def split: if_splits)
    from assms(1) Scheme have "v = s" by (simp add: auth_inv_def)
    then have "s = take (pos + 1) v @ v'" using r(2) by simp
    with t2 r(2) have "\<exists>pre. s = pre @ v' \<and> (pre = [] \<or> take 2 v' = ''//'')" by blast
    with r show ?thesis by (simp add: auth_inv_def)
  qed
next
  case CheckAuthority
  from assms(1) CheckAuthority obtain pre where
    pre: "s = pre @ v" "pre = [] \<or> take 2 v = ''//''" and
    e: "user st = []" "host st = []" "port st = []"
    by (auto simp: auth_inv_def)
  from assms(3) CheckAuthority have st': "st' = st"
    by (auto simp: parse_step_def Let_def split: if_splits)
  show ?thesis
  proof (cases "step' = Authority")
    case True
    show ?thesis
    proof (cases "length v > 2 \<and> take 2 v = ''//''")
      case t: True
      with assms(3) CheckAuthority have "v' = drop 2 v"
        by (auto simp: parse_step_def Let_def substr_def remove_prefix_def seps_defs numeral_2_eq_2
              split: if_splits)
      moreover from t have "v = ''//'' @ drop 2 v" by (metis append_take_drop_id)
      ultimately have "s = (pre @ ''//'') @ v'" using pre(1) by simp
      moreover have "last (pre @ ''//'') = CHR ''/''" by simp
      ultimately have "\<exists>pre. s = pre @ v' \<and> (pre = [] \<or> last pre = CHR ''/'')" by blast
      then show ?thesis using True e st' by (simp add: auth_inv_def)
    next
      case f: False
      with assms(3) CheckAuthority True have v': "v' = v"
        by (auto simp: parse_step_def Let_def substr_def remove_prefix_def seps_defs numeral_2_eq_2
              split: if_splits)
      have "pre = []"
      proof (rule ccontr)
        assume "pre \<noteq> []"
        with pre(2) have t2: "take 2 v = ''//''" by simp
        with f have "length v \<le> 2" by simp
        with t2 have "v = ''//''" by (metis take_all)
        with assms(3) CheckAuthority True show False
          by (auto simp: parse_step_def Let_def substr_def substr_from_def find_from_def
                seps_defs split: if_splits)
      qed
      with pre(1) v' e st' True show ?thesis by (simp add: auth_inv_def)
    qed
  next
    case False
    with assms(3) CheckAuthority have "step' = CheckSeparator"
      by (auto simp: parse_step_def Let_def split: if_splits)
    with e st' show ?thesis by (simp add: auth_inv_def auth_goal_def)
  qed
next
  case Authority
  from assms(1) Authority obtain pre where
    pre: "s = pre @ v" "pre = [] \<or> last pre = CHR ''/''" and
    e: "user st = []" "host st = []" "port st = []"
    by (auto simp: auth_inv_def)
  from assms(3) Authority have t: "tryParseAuthority st v = Inr (st', v')" and
    step': "step' = CheckSeparator"
    by (auto simp: parse_step_def split: sum.splits)
  have "auth_goal s st'"
    unfolding auth_goal_def
  proof (intro impI)
    assume h: "host st' = []"
    from tryParseAuthority_empty_host[OF t e h] obtain colon where
      c: "takeWhile (\<lambda>c. c \<notin> set ''/#?'') v
            = (if user st' = [] then [] else user st' @ ''@'') @ colon @ port st'"
         "colon = '':'' \<or> (colon = [] \<and> port st' = [])" by blast
    define post where "post = dropWhile (\<lambda>c. c \<notin> set ''/#?'') v"
    have "v = takeWhile (\<lambda>c. c \<notin> set ''/#?'') v @ post" by (simp add: post_def)
    with c(1) pre(1)
    have "s = pre @ (if user st' = [] then [] else user st' @ ''@'') @ colon @ port st' @ post"
      by (metis append_assoc)
    moreover have "post = [] \<or> hd post \<in> set ''/?#''"
      unfolding post_def using hd_dropWhile[of "\<lambda>c. c \<notin> set ''/#?''" v] by auto
    ultimately show "(user st' = [] \<and> port st' = [])
        \<or> (\<exists>pre colon post.
              s = pre @ (if user st' = [] then [] else user st' @ ''@'') @ colon @ port st' @ post
              \<and> (colon = '':'' \<or> (colon = [] \<and> port st' = []))
              \<and> (pre = [] \<or> last pre = CHR ''/'')
              \<and> (post = [] \<or> hd post \<in> set ''/?#''))"
      using c(2) pre(2) by blast
  qed
  with step' show ?thesis by (simp add: auth_inv_def)
next
  case CheckSeparator
  then have "step = CheckSeparator \<or> step = Path \<or> step = Query \<or> step = Fragment" by simp
  from later_steps_preserve[OF assms(1) assms(3) this] show ?thesis .
next
  case Path
  then have "step = CheckSeparator \<or> step = Path \<or> step = Query \<or> step = Fragment" by simp
  from later_steps_preserve[OF assms(1) assms(3) this] show ?thesis .
next
  case Fragment
  then have "step = CheckSeparator \<or> step = Path \<or> step = Query \<or> step = Fragment" by simp
  from later_steps_preserve[OF assms(1) assms(3) this] show ?thesis .
next
  case Query
  then have "step = CheckSeparator \<or> step = Path \<or> step = Query \<or> step = Fragment" by simp
  from later_steps_preserve[OF assms(1) assms(3) this] show ?thesis .
qed


section \<open>Element predicates: results\<close>

text \<open>
  C3. \<open>is_decimal_octet\<close> on the one-character string "0": the size-1 case stores the
  digit's value and returns \<open>value > 0\<close>, so "0" is rejected, although the case is
  commented "valid: 0-9". Leading-zero forms and the empty string are rejected and 255 is
  accepted, as the claim says.
\<close>

theorem is_decimal_octet_zero_rejected:
  "is_decimal_octet ''0'' = False \<and> is_decimal_octet ''01'' = False
   \<and> is_decimal_octet ''001'' = False \<and> is_decimal_octet [] = False
   \<and> is_decimal_octet ''255'' = True \<and> is_decimal_octet ''256'' = False"
  by (simp add: is_decimal_octet_def is_digit_def digit_value_def char_ge_def char_le_def)

text \<open>
  C4. \<open>is_IPv4\<close> on "1.2.3.4.5" and on "1.2.3.4.": the loop stops as soon as the fourth
  dot has stored the fourth octet, the bytes after that dot are never looked at, and the
  function returns true, where the claim has both strings rejected.
\<close>

theorem is_IPv4_accepts_trailing_content:
  "is_IPv4 ''1.2.3.4.5'' = True \<and> is_IPv4 ''1.2.3.4.'' = True \<and> is_IPv4 ''1.2.3.4.x/y'' = True
   \<and> is_IPv4 ''1.2.3.4'' = True \<and> is_IPv4 ''1.2.3'' = False \<and> is_IPv4 ''0.0.0.0'' = False"
  by code_simp

text \<open>
  C10. The validators on the one-character string "%": \<open>size() - 2\<close> wraps to
  \<open>2^64 - 1\<close>, the guard \<open>0 < 2^64 - 1\<close> passes, and the byte at index 1, outside the view,
  is read.
\<close>

theorem pct_guard_reads_outside_view:
  "is_regular_name ''%'' = Inl OutOfBounds \<and> isUserCompliant ''%'' = Inl OutOfBounds
   \<and> isPathSegmentCompliant ''%'' = Inl OutOfBounds \<and> isFragmentCompliant ''%'' = Inl OutOfBounds
   \<and> isQueryCompliant ''%'' = Inl OutOfBounds"
  by code_simp

section \<open>Parser: results\<close>

text \<open>
  C1, as the code has it. The scheme is found by searching for "://" only, which
  "mailto:bob@local" does not contain: parsing it leaves the scheme absent, takes
  everything before the "@" as the user, "local" as the host, and sets no path, no query
  and no fragment.
\<close>

theorem parse_mailto:
  "parse ''mailto:bob@local'' =
     Inr (NoError,
          \<lparr>uri_raw = ''mailto:bob@local'', isAbsolutePath = False, scheme = [],
           user = ''mailto:bob'', host = ''local'', port = [], path = [], queryLine = [],
           fragment = [], pathSegments = [], queries = []\<rparr>)"
  by code_simp

text \<open>C1 as stated fails: the parse succeeds with another scheme and another user.\<close>

theorem parse_mailto_counterexample:
  "\<not> isl (parse ''mailto:bob@local'')
   \<and> scheme (snd (projr (parse ''mailto:bob@local''))) \<noteq> ''mailto''
   \<and> user (snd (projr (parse ''mailto:bob@local''))) \<noteq> ''bob''"
  by code_simp

text \<open>
  C9. Parsing "http://host/": the authority is "host", the path step removes the one
  \<open>/\<close> that is left, and \<open>uri.front()\<close> then reads the first byte of an empty cursor.
\<close>

theorem parse_trailing_slash_reads_empty_cursor:
  "parse ''http://host/'' = Inl OutOfBounds \<and> tryParsePath (URI_init ''h/''\<lparr>host := ''h''\<rparr>) ''/'' = Inl OutOfBounds"
  by code_simp

text \<open>
  C8. \<open>setScheme\<close> on the parsed "http://h": the position handed to \<open>replace\<close> is the
  byte \<open>h\<close>, 104, beyond the eight bytes of the text, and \<open>std::out_of_range\<close> is thrown.
  On the parsed "//h", which has no scheme, \<open>append\<close> adds the empty tail of "ftp:" and
  the text stays "//h".
\<close>

theorem setScheme_raw_text:
  "map_sum id uri_raw (setScheme (snd (projr (parse ''http://h''))) ''ftp'') = Inl OutOfRange
   \<and> scheme (snd (projr (parse ''http://h''))) = ''http''
   \<and> map_sum id uri_raw (setScheme (snd (projr (parse ''//h''))) ''ftp'') = Inr ''//h''
   \<and> scheme (snd (projr (parse ''//h''))) = []"
  by code_simp

text \<open>
  C2, as the code has it by design. The path step runs on a cursor that begins with \<open>/\<close>.
  With no authority recognised (the host is empty) it succeeds, sets \<open>isAbsolutePath\<close> and
  stores the cursor text up to the first \<open>?\<close> or \<open>#\<close>, leading \<open>/\<close> included. With an
  authority recognised, and more text after the \<open>/\<close>, that \<open>/\<close> is consumed first and the
  stored path is the text after it up to the first \<open>?\<close> or \<open>#\<close>. Parsing "//host/path"
  yields scheme absent, host "host" and path "path".
\<close>

theorem tryParsePath_leading_slash:
  assumes "take 1 uri = ''/''"
  shows "(host st = [] \<longrightarrow>
            (\<exists>st' uri'. tryParsePath st uri = Inr (st', uri')
               \<and> isAbsolutePath st'
               \<and> path st' = takeWhile (\<lambda>c. c \<notin> set ''?#'') uri
               \<and> take 1 (path st') = ''/''))
       \<and> (host st \<noteq> [] \<and> tl uri \<noteq> [] \<longrightarrow>
            (\<exists>st' uri'. tryParsePath st uri = Inr (st', uri')
               \<and> path st' = takeWhile (\<lambda>c. c \<notin> set ''?#'') (tl uri)))
       \<and> \<not> isl (parse ''//host/path'')
       \<and> scheme (snd (projr (parse ''//host/path''))) = []
       \<and> host (snd (projr (parse ''//host/path''))) = ''host''
       \<and> path (snd (projr (parse ''//host/path''))) = ''path''"
proof -
  from assms obtain cs where uri: "uri = CHR ''/'' # cs" by (cases uri) auto
  have a: "host st = [] \<longrightarrow>
            (\<exists>st' uri'. tryParsePath st uri = Inr (st', uri')
               \<and> isAbsolutePath st'
               \<and> path st' = takeWhile (\<lambda>c. c \<notin> set ''?#'') uri
               \<and> take 1 (path st') = ''/'')"
    by (simp add: tryParsePath_unfold Let_def uri)
  have b: "host st \<noteq> [] \<and> tl uri \<noteq> [] \<longrightarrow>
            (\<exists>st' uri'. tryParsePath st uri = Inr (st', uri')
               \<and> path st' = takeWhile (\<lambda>c. c \<notin> set ''?#'') (tl uri))"
    by (simp add: tryParsePath_unfold Let_def uri drop_Suc)
  have c: "\<not> isl (parse ''//host/path'')
       \<and> scheme (snd (projr (parse ''//host/path''))) = []
       \<and> host (snd (projr (parse ''//host/path''))) = ''host''
       \<and> path (snd (projr (parse ''//host/path''))) = ''path''"
    by code_simp
  from a b c show ?thesis by blast
qed

theorem tryParsePath_leading_slash_witness:
  "(\<exists>st' uri'. tryParsePath (URI_init ''/a/b?x=1'') ''/a/b?x=1'' = Inr (st', uri')
       \<and> isAbsolutePath st' \<and> path st' = ''/a/b'')
   \<and> (\<exists>st' uri'. tryParsePath (URI_init ''//h/a/b?x=1''\<lparr>host := ''h''\<rparr>) ''/a/b?x=1'' = Inr (st', uri')
       \<and> path st' = ''a/b'')"
proof -
  have h: "take 1 ''/a/b?x=1'' = ''/''" by simp
  show ?thesis
    using tryParsePath_leading_slash[OF h, of "URI_init ''/a/b?x=1''"]
      tryParsePath_leading_slash[OF h, of "URI_init ''//h/a/b?x=1''\<lparr>host := ''h''\<rparr>"]
    by (auto simp: URI_init_def)
qed

text \<open>
  C2 as stated fails: parsing "//host/path" stores the path "path", not "/path", and leaves
  \<open>isAbsolutePath\<close> false.
\<close>

theorem parse_path_after_authority_counterexample:
  "\<not> isl (parse ''//host/path'')
   \<and> path (snd (projr (parse ''//host/path''))) \<noteq> ''/path''
   \<and> \<not> isAbsolutePath (snd (projr (parse ''//host/path'')))"
  by code_simp

text \<open>
  C5, as the code has it. For every successfully parsed URI with an empty host: the user
  and the port are empty, or else the input holds an authority, at its start or after a
  \<open>/\<close> and ending at the end of the input or before \<open>/\<close>, \<open>?\<close> or \<open>#\<close>, that has nothing
  where the host would be: the user with its \<open>@\<close> if there is a user, then a \<open>:\<close> with
  the port, or nothing at all after the \<open>@\<close>.
\<close>

theorem empty_host_authority_shape:
  assumes "parse s = Inr (r, u)" "host u = []"
  shows "(user u = [] \<and> port u = [])
         \<or> (\<exists>pre colon post.
               s = pre @ (if user u = [] then [] else user u @ ''@'') @ colon @ port u @ post
               \<and> (colon = '':'' \<or> (colon = [] \<and> port u = []))
               \<and> (pre = [] \<or> last pre = CHR ''/'')
               \<and> (post = [] \<or> hd post \<in> set ''/?#''))"
proof (cases "s = []")
  case True
  with assms show ?thesis by (auto simp: parse_def URI_init_def)
next
  case False
  with assms have pl: "parse_loop Scheme (URI_init s) s = Inr u"
    by (auto simp: parse_def split: sum.splits)
  have "\<exists>step'. auth_inv s step' u []"
  proof (rule parse_loop_invariant[where I = "auth_inv s", OF pl])
    show "auth_inv s Scheme (URI_init s) s" by (simp add: auth_inv_def URI_init_def)
  qed (rule auth_inv_step)
  then obtain step' where "auth_inv s step' u []" ..
  then have "auth_goal s u"
    by (auto simp: auth_inv_def auth_goal_def split: if_splits)
  with assms(2) show ?thesis by (simp add: auth_goal_def)
qed

theorem empty_host_authority_shape_witness:
  "parse ''bob@:80/x'' =
     Inr (NoError,
          \<lparr>uri_raw = ''bob@:80/x'', isAbsolutePath = True, scheme = [], user = ''bob'', host = [],
           port = ''80'', path = ''/x'', queryLine = [], fragment = [],
           pathSegments = [''/'', ''x''], queries = []\<rparr>)
   \<and> (\<exists>pre colon post. ''bob@:80/x'' = pre @ ''bob@'' @ colon @ ''80'' @ post
          \<and> colon = '':'' \<and> (pre = [] \<or> last pre = CHR ''/'')
          \<and> (post = [] \<or> hd post \<in> set ''/?#''))"
proof -
  have p: "parse ''bob@:80/x'' =
     Inr (NoError,
          \<lparr>uri_raw = ''bob@:80/x'', isAbsolutePath = True, scheme = [], user = ''bob'', host = [],
           port = ''80'', path = ''/x'', queryLine = [], fragment = [],
           pathSegments = [''/'', ''x''], queries = []\<rparr>)"
    by code_simp
  from empty_host_authority_shape[OF p] p show ?thesis by auto
qed

text \<open>
  C5 as stated fails: "bob@" parses with the user "bob" and no host, and ":80" parses with
  the port "80" and no host.
\<close>

theorem parse_empty_host_counterexample:
  "\<not> isl (parse ''bob@'') \<and> host (snd (projr (parse ''bob@''))) = []
   \<and> user (snd (projr (parse ''bob@''))) = ''bob''
   \<and> \<not> isl (parse '':80'') \<and> host (snd (projr (parse '':80''))) = []
   \<and> port (snd (projr (parse '':80''))) = ''80''"
  by code_simp

text \<open>
  C6. For every successfully parsed URI, the path segments concatenated in order are
  exactly the stored path text, every \<open>/\<close> included.
\<close>

theorem segments_concat_path:
  assumes "parse s = Inr (r, u)"
  shows "concat (pathSegments u) = path u"
proof (cases "s = []")
  case True
  with assms show ?thesis by (auto simp: parse_def URI_init_def)
next
  case False
  with assms have pl: "parse_loop Scheme (URI_init s) s = Inr u"
    by (auto simp: parse_def split: sum.splits)
  have "seg_inv Scheme (URI_init s) s" by (simp add: seg_inv_def URI_init_def)
  have "\<exists>step'. seg_inv step' u []"
  proof (rule parse_loop_invariant[where I = seg_inv, OF pl])
    show "seg_inv Scheme (URI_init s) s" by (simp add: seg_inv_def URI_init_def)
  qed (rule seg_inv_step)
  then show ?thesis by (auto simp: seg_inv_def)
qed

theorem segments_concat_path_witness:
  "parse ''/docs/a.txt'' =
     Inr (NoError,
          \<lparr>uri_raw = ''/docs/a.txt'', isAbsolutePath = True, scheme = [], user = [], host = [],
           port = [], path = ''/docs/a.txt'', queryLine = [], fragment = [],
           pathSegments = [''/'', ''docs/'', ''a.txt''], queries = []\<rparr>)
   \<and> concat [''/'', ''docs/'', ''a.txt''] = ''/docs/a.txt''"
proof -
  have p: "parse ''/docs/a.txt'' =
     Inr (NoError,
          \<lparr>uri_raw = ''/docs/a.txt'', isAbsolutePath = True, scheme = [], user = [], host = [],
           port = [], path = ''/docs/a.txt'', queryLine = [], fragment = [],
           pathSegments = [''/'', ''docs/'', ''a.txt''], queries = []\<rparr>)"
    by code_simp
  from segments_concat_path[OF p] p show ?thesis by simp
qed

text \<open>
  C7, as the code has it. The parse reaches the query component when the loop takes a turn
  in step \<open>Query\<close>, on a cursor that is not empty; the query text is the cursor up to the
  first \<open>#\<close>. From there the parse fails with \<open>MalformedQuery\<close> exactly when one of the
  pieces of the query text, an empty last piece left aside, contains no \<open>=\<close>. Otherwise it
  succeeds, with the query text as \<open>queryLine\<close> and with every such piece, split at its
  first \<open>=\<close> into key and value, added to the map in order unless its key is there already.
\<close>

theorem query_step_malformed_iff:
  assumes "v \<noteq> []"
  shows "(parse_loop Query st v = Inl MalformedQuery
            \<longleftrightarrow> list_ex (\<lambda>p. CHR ''='' \<notin> set p) (query_pieces (takeWhile (\<lambda>c. c \<noteq> CHR ''#'') v)))
       \<and> (\<not> list_ex (\<lambda>p. CHR ''='' \<notin> set p) (query_pieces (takeWhile (\<lambda>c. c \<noteq> CHR ''#'') v))
            \<longrightarrow> (\<exists>u. parse_loop Query st v = Inr u
                     \<and> queryLine u = takeWhile (\<lambda>c. c \<noteq> CHR ''#'') v
                     \<and> queries u = foldl add_piece (queries st)
                                      (query_pieces (takeWhile (\<lambda>c. c \<noteq> CHR ''#'') v))))"
proof -
  define q where "q = takeWhile (\<lambda>c. c \<noteq> CHR ''#'') v"
  define rest where "rest = dropWhile (\<lambda>c. c \<noteq> CHR ''#'') v"
  define bad where "bad = list_ex (\<lambda>p. CHR ''='' \<notin> set p) (query_pieces q)"
  define st' where "st' = st\<lparr>queryLine := q, queries := foldl add_piece (queries st) (query_pieces q)\<rparr>"
  have step: "parse_step Query st v = (if bad then Inl MalformedQuery else Inr (Fragment, st', rest))"
    by (simp add: parse_step_def tryParseQuery_unfold Let_def q_def rest_def bad_def st'_def)
  have loop: "parse_loop Query st v =
      (if bad then Inl MalformedQuery
       else Inr (if rest = [] then st' else st'\<lparr>fragment := drop 1 rest\<rparr>))"
    using assms by (simp add: parse_loop.simps[of Query st v] step parse_loop_Fragment)
  show ?thesis
    unfolding q_def[symmetric] bad_def[symmetric]
    by (simp add: loop st'_def)
qed


theorem query_step_malformed_iff_witness:
  "parse_loop Query (URI_init ''h?a=1&b=&#f'') ''a=1&b=&#f'' \<noteq> Inl MalformedQuery
   \<and> (\<exists>u. parse_loop Query (URI_init ''h?a=1&b=&#f'') ''a=1&b=&#f'' = Inr u
          \<and> queryLine u = ''a=1&b=&'' \<and> queries u = [(''a'', ''1''), (''b'', [])])
   \<and> parse_loop Query (URI_init ''h?a=1&&b=2'') ''a=1&&b=2'' = Inl MalformedQuery"
proof -
  have ne: "''a=1&b=&#f'' \<noteq> []" "''a=1&&b=2'' \<noteq> []" by simp_all
  have q: "takeWhile (\<lambda>c. c \<noteq> CHR ''#'') ''a=1&b=&#f'' = ''a=1&b=&''"
     "takeWhile (\<lambda>c. c \<noteq> CHR ''#'') ''a=1&&b=2'' = ''a=1&&b=2''" by simp_all
  have ok: "\<not> list_ex (\<lambda>p. CHR ''='' \<notin> set p) (query_pieces ''a=1&b=&'')"
    by code_simp
  have bad: "list_ex (\<lambda>p. CHR ''='' \<notin> set p) (query_pieces ''a=1&&b=2'')"
    by code_simp
  have f: "foldl add_piece (queries (URI_init ''h?a=1&b=&#f'')) (query_pieces ''a=1&b=&'')
           = [(''a'', ''1''), (''b'', [])]"
    by code_simp
  show ?thesis
    using query_step_malformed_iff[OF ne(1), of "URI_init ''h?a=1&b=&#f''"]
      query_step_malformed_iff[OF ne(2), of "URI_init ''h?a=1&&b=2''"]
    unfolding q using ok bad f by auto
qed


text \<open>
  C7 as stated fails: the query text "a=b&" has two pieces, "a=b" and the empty
  one after the \<open>&\<close>; the empty piece contains no \<open>=\<close>, and the parse of "h?a=b&" succeeds.
\<close>

theorem query_trailing_separator_counterexample:
  "\<not> isl (parse ''h?a=b&'')
   \<and> queryLine (snd (projr (parse ''h?a=b&''))) = ''a=b&''
   \<and> list_ex (\<lambda>p. CHR ''='' \<notin> set p) (split_on CHR ''&'' ''a=b&'')"
  by code_simp

end
